theory Spec2Isabelle
  imports Main "HOL-Library.Sublist" "HOL-Library.Multiset"
begin

section \<open>The search-result parser of the FRED converters\<close>

text \<open>
  The development embeds \<^verbatim>\<open>parse_search_result_file\<close> of
  \<^verbatim>\<open>convert_search_results.py\<close> (the JSON converter) and its copy in
  \<^verbatim>\<open>convert_search_results_markdown.py\<close> (the Markdown converter).

  A Python \<^verbatim>\<open>str\<close> is a sequence of code points. It is modelled as a
  \<open>string\<close> whose characters stand for the code points below 256; on this range
  \<^verbatim>\<open>str.isspace\<close> holds of the code points 9 to 13, 28 to 32, 133 and 160, and
  the regular expression class \<^verbatim>\<open>\d\<close> is the ten ASCII digits.
  The file name enters only through \<^verbatim>\<open>file_path.stem\<close> and the text that
  \<^verbatim>\<open>read_text\<close> returns, so the model takes these two strings.
\<close>

subsection \<open>Python string operations\<close>

definition is_space :: "char \<Rightarrow> bool" where
  "is_space c = (let n = (of_char c :: nat) in
     (9 \<le> n \<and> n \<le> 13) \<or> (28 \<le> n \<and> n \<le> 32) \<or> n = 133 \<or> n = 160)"

definition is_digit :: "char \<Rightarrow> bool" where
  "is_digit c = (let n = (of_char c :: nat) in 48 \<le> n \<and> n \<le> 57)"

text \<open>The class \<^verbatim>\<open>[A-Z0-9]\<close>.\<close>

definition is_idchar :: "char \<Rightarrow> bool" where
  "is_idchar c = (let n = (of_char c :: nat) in (65 \<le> n \<and> n \<le> 90) \<or> (48 \<le> n \<and> n \<le> 57))"

text \<open>\<^verbatim>\<open>s.strip()\<close>: whitespace is removed at both ends.\<close>

definition strip :: "string \<Rightarrow> string" where
  "strip s = rev (dropWhile is_space (rev (dropWhile is_space s)))"

text \<open>\<^verbatim>\<open>s.startswith(p)\<close>, and the form that takes a tuple of prefixes.\<close>

definition startswith :: "string \<Rightarrow> string \<Rightarrow> bool" where
  "startswith s p = prefix p s"

definition startswith_any :: "string \<Rightarrow> string list \<Rightarrow> bool" where
  "startswith_any s ps = list_ex (startswith s) ps"

text \<open>
  \<^verbatim>\<open>s.replace(old, new)\<close> replaces every occurrence of \<open>old\<close>, found from the left
  and without overlap. The source calls it with non-empty literals only; for an empty
  \<open>old\<close> (where Python interleaves \<open>new\<close>) the model returns \<open>s\<close>.
\<close>

function replace :: "string \<Rightarrow> string \<Rightarrow> string \<Rightarrow> string" where
  "replace [] old new = []"
| "replace (c # cs) old new =
     (if old \<noteq> [] \<and> prefix old (c # cs)
      then new @ replace (drop (length old) (c # cs)) old new
      else c # replace cs old new)"
  by pat_completeness auto
termination
  by (relation "measure (\<lambda>(s, old, new). length s)") auto

text \<open>The operator \<^verbatim>\<open>sub in s\<close> on strings.\<close>

fun contains :: "string \<Rightarrow> string \<Rightarrow> bool" where
  "contains sub [] = (sub = [])"
| "contains sub (c # cs) = (prefix sub (c # cs) \<or> contains sub cs)"

text \<open>\<^verbatim>\<open>s.split("\n")\<close>: the fields between line feeds; there is always one field.\<close>

function split_nl :: "string \<Rightarrow> string list" where
  "split_nl s =
     (case dropWhile (\<lambda>c. c \<noteq> CHR 0x0A) s of
        [] \<Rightarrow> [takeWhile (\<lambda>c. c \<noteq> CHR 0x0A) s]
      | _ # r \<Rightarrow> takeWhile (\<lambda>c. c \<noteq> CHR 0x0A) s # split_nl r)"
  by pat_completeness auto
termination
proof (relation "measure length")
  show "wf (measure length)" by simp
next
  fix s :: string and x r
  assume "dropWhile (\<lambda>c. c \<noteq> CHR 0x0A) s = x # r"
  moreover have "length (dropWhile (\<lambda>c. c \<noteq> CHR 0x0A) s) \<le> length s"
    by (rule length_dropWhile_le)
  ultimately show "(r, s) \<in> measure length" by simp
qed

declare split_nl.simps [simp del]

text \<open>\<^verbatim>\<open>sep.join(xs)\<close>.\<close>

fun join :: "string \<Rightarrow> string list \<Rightarrow> string" where
  "join sep [] = []"
| "join sep [x] = x"
| "join sep (x # y # ys) = x @ sep @ join sep (y # ys)"

text \<open>
  \<^verbatim>\<open>xs[n]\<close> for an index that is not negative: out of range it raises
  \<^verbatim>\<open>IndexError\<close>. The indices of the parser start at 0 and only grow, and the one
  subtraction, \<^verbatim>\<open>j - 1\<close>, is evaluated under \<^verbatim>\<open>j > i + 1\<close>, so they are
  natural numbers.
\<close>

datatype error = IndexError

definition getitem :: "'a list \<Rightarrow> nat \<Rightarrow> error + 'a" where
  "getitem xs n = (if n < length xs then Inr (xs ! n) else Inl IndexError)"

subsection \<open>The two regular expressions\<close>

text \<open>
  \<^verbatim>\<open>re.match(r"\d+\.", s)\<close> as a truth value. The match is anchored at the start
  of \<open>s\<close> only. The digits are taken greedily; giving one back cannot help, since the
  next character would be a digit where a dot is required.
\<close>

definition match_number_dot :: "string \<Rightarrow> bool" where
  "match_number_dot s = (takeWhile is_digit s \<noteq> [] \<and> startswith (dropWhile is_digit s) ''.'')"

text \<open>
  \<^verbatim>\<open>re.match(r"\d+\. ([A-Z0-9]+) - (.+)", s)\<close>: \<open>None\<close> when there is no match,
  else the two groups. Both greedy runs are followed by a character outside their
  class, so backtracking never finds another match; \<^verbatim>\<open>.\<close> is any character but
  the line feed, and \<^verbatim>\<open>(.+)\<close> takes all of them.
\<close>

definition match_series :: "string \<Rightarrow> (string \<times> string) option" where
  "match_series s =
     (let r1 = dropWhile is_digit s in
      if takeWhile is_digit s \<noteq> [] \<and> startswith r1 ''. '' then
        let r2 = drop 2 r1;
            g1 = takeWhile is_idchar r2;
            r3 = dropWhile is_idchar r2
        in if g1 \<noteq> [] \<and> startswith r3 '' - '' then
             let g2 = takeWhile (\<lambda>c. c \<noteq> CHR 0x0A) (drop 3 r3)
             in if g2 \<noteq> [] then Some (g1, g2) else None
           else None
      else None)"

subsection \<open>The data\<close>

text \<open>The dictionary \<^verbatim>\<open>metadata\<close>, and the dictionary appended to \<^verbatim>\<open>results\<close>,
  which extends it by \<^verbatim>\<open>series_id\<close> and \<^verbatim>\<open>title\<close>. The key
  \<^verbatim>\<open>notes\<close> is the field \<open>notes_field\<close>.\<close>

record metadata =
  frequency :: string
  units :: string
  last_updated :: string
  notes_field :: string

record series_record = metadata +
  series_id :: string
  title :: string

text \<open>The returned dictionary. The early return has no key \<^verbatim>\<open>result_count\<close>:
  the field is \<open>None\<close> there.\<close>

record parsed_result =
  query :: string
  result_count :: "nat option"
  results :: "series_record list"

definition empty_metadata :: metadata where
  "empty_metadata = \<lparr>frequency = [], units = [], last_updated = [], notes_field = []\<rparr>"

definition make_record :: "string \<Rightarrow> string \<Rightarrow> metadata \<Rightarrow> series_record" where
  "make_record sid ttl md =
     \<lparr>frequency = frequency md, units = units md, last_updated = last_updated md,
      notes_field = notes_field md, series_id = sid, title = ttl\<rparr>"

subsection \<open>The JSON converter's parser\<close>

text \<open>The loop over \<^verbatim>\<open>lines[:10]\<close> that looks for the query, with its
  \<^verbatim>\<open>break\<close>.\<close>

fun query_loop :: "string \<Rightarrow> string list \<Rightarrow> string" where
  "query_loop q [] = q"
| "query_loop q (line # ls) =
     (if startswith line ''Query: '' then strip (replace line ''Query: '' [])
      else query_loop q ls)"

text \<open>One passage through the body of the inner \<^verbatim>\<open>while j < len(lines)\<close>: it
  leaves the loop (\<open>Break\<close>) or goes on to \<open>j + 1\<close> with the metadata and the notes
  collected so far.\<close>

datatype outcome = Break | Continue metadata "string list"

definition lookahead_step ::
  "string list \<Rightarrow> nat \<Rightarrow> nat \<Rightarrow> metadata \<Rightarrow> string list \<Rightarrow> error + outcome" where
  "lookahead_step lines i j md notes_lines =
     (case getitem lines j of Inl e \<Rightarrow> Inl e | Inr raw \<Rightarrow>
      let next_line = strip raw in
      if next_line = [] then
        (if j + 1 < length lines then
           (case getitem lines (j + 1) of Inl e \<Rightarrow> Inl e | Inr raw1 \<Rightarrow>
              if match_number_dot (strip raw1) then Inr Break
              else Inr (Continue md notes_lines))
         else Inr (Continue md notes_lines))
      else if match_number_dot next_line then Inr Break
      else if startswith next_line ''Units: '' then
        Inr (Continue (md\<lparr>units := strip (replace next_line ''Units: '' [])\<rparr>) notes_lines)
      else if startswith next_line ''Frequency: '' then
        Inr (Continue (md\<lparr>frequency := strip (replace next_line ''Frequency: '' [])\<rparr>) notes_lines)
      else if startswith next_line ''Last Updated: '' then
        Inr (Continue (md\<lparr>last_updated := strip (replace next_line ''Last Updated: '' [])\<rparr>)
               notes_lines)
      else if startswith next_line ''Notes: '' then
        (let note_text = strip (replace next_line ''Notes: '' []) in
         if note_text \<noteq> ''No description available''
         then Inr (Continue md (notes_lines @ [note_text]))
         else Inr (Continue md notes_lines))
      else if notes_lines \<noteq> [] then Inr (Continue md (notes_lines @ [next_line]))
      else if j > i + 1 then
        (case getitem lines (j - 1) of Inl e \<Rightarrow> Inl e | Inr prev \<Rightarrow>
           if contains ''Notes:'' prev then Inr (Continue md (notes_lines @ [next_line]))
           else Inr (Continue md notes_lines))
      else Inr (Continue md notes_lines))"

text \<open>The inner loop: it returns the index where it stopped, the metadata and the
  notes.\<close>

function lookahead ::
  "string list \<Rightarrow> nat \<Rightarrow> nat \<Rightarrow> metadata \<Rightarrow> string list
     \<Rightarrow> error + (nat \<times> metadata \<times> string list)" where
  "lookahead lines i j md notes_lines =
     (if j < length lines then
        (case lookahead_step lines i j md notes_lines of
           Inl e \<Rightarrow> Inl e
         | Inr Break \<Rightarrow> Inr (j, md, notes_lines)
         | Inr (Continue md' notes_lines') \<Rightarrow> lookahead lines i (j + 1) md' notes_lines')
      else Inr (j, md, notes_lines))"
  by pat_completeness auto
termination
  by (relation "measure (\<lambda>(lines, i, j, md, notes_lines). length lines - j)") auto

declare lookahead.simps [simp del]

text \<open>The statement after the inner loop that joins the notes.\<close>

definition join_notes :: "metadata \<Rightarrow> string list \<Rightarrow> metadata" where
  "join_notes md notes_lines =
     (if notes_lines \<noteq> [] then md\<lparr>notes_field := strip (join '' '' notes_lines)\<rparr> else md)"

lemma lookahead_index_grows:
  "lookahead lines i j md nl = Inr (j', md', nl') \<Longrightarrow> j \<le> j'"
proof (induction lines i j md nl rule: lookahead.induct)
  case (1 lines i j md nl)
  note unfold = lookahead.simps[of lines i j md nl]
  show ?case
  proof (cases "j < length lines")
    case False
    with "1.prems" show ?thesis by (simp add: unfold)
  next
    case True
    show ?thesis
    proof (cases "lookahead_step lines i j md nl")
      case (Inl e)
      with True "1.prems" show ?thesis by (simp add: unfold)
    next
      case (Inr out)
      show ?thesis
      proof (cases out)
        case Break
        with True Inr "1.prems" show ?thesis by (simp add: unfold)
      next
        case (Continue md1 nl1)
        with True Inr "1.prems" have "lookahead lines i (j + 1) md1 nl1 = Inr (j', md', nl')"
          by (simp add: unfold)
        with "1.IH"[OF True Inr Continue] show ?thesis by simp
      qed
    qed
  qed
qed

text \<open>The test of the outer loop for empty lines and headers, on the stripped line.\<close>

definition skip_line :: "string \<Rightarrow> bool" where
  "skip_line line =
     (line = [] \<or>
      startswith_any line [''FRED Series'', ''Query:'', ''Timestamp:'', ''Total Results:''])"

text \<open>The outer loop \<^verbatim>\<open>while i < len(lines)\<close>, with the list \<^verbatim>\<open>results\<close>
  built so far (\<open>res\<close>).\<close>

function scan :: "string list \<Rightarrow> nat \<Rightarrow> series_record list \<Rightarrow> error + series_record list" where
  "scan lines i res =
     (if i < length lines then
        (case getitem lines i of Inl e \<Rightarrow> Inl e | Inr raw \<Rightarrow>
         let line = strip raw in
         if skip_line line then scan lines (i + 1) res
         else
           (case match_series line of
              Some (g1, g2) \<Rightarrow>
                (case lookahead lines i (i + 1) empty_metadata [] of
                   Inl e \<Rightarrow> Inl e
                 | Inr (j, md, notes_lines) \<Rightarrow>
                     scan lines j
                       (res @ [make_record (strip g1) (strip g2) (join_notes md notes_lines)]))
            | None \<Rightarrow> scan lines (i + 1) res))
      else Inr res)"
  by pat_completeness auto
termination
proof (relation "measure (\<lambda>(lines, i, res). length lines - i)")
  show "wf (measure (\<lambda>(lines, i, res). length lines - i))" by simp
qed (auto dest: lookahead_index_grows)

declare scan.simps [simp del]

text \<open>The function after \<^verbatim>\<open>lines\<close> is computed, and the whole function. The first
  argument is \<^verbatim>\<open>file_path.stem\<close>, the second the text of the file.\<close>

definition parse_lines :: "string \<Rightarrow> string list \<Rightarrow> error + parsed_result" where
  "parse_lines stem lines =
     (if lines = [] then Inr \<lparr>query = stem, result_count = None, results = []\<rparr>
      else
        let query = query_loop stem (take 10 lines) in
        case scan lines 0 [] of
          Inl e \<Rightarrow> Inl e
        | Inr rs \<Rightarrow> Inr \<lparr>query = query, result_count = Some (length rs), results = rs\<rparr>)"

definition parse_search_result_file :: "string \<Rightarrow> string \<Rightarrow> error + parsed_result" where
  "parse_search_result_file stem content = parse_lines stem (split_nl (strip content))"

subsection \<open>The Markdown converter's parser\<close>

text \<open>The function of the same name in \<^verbatim>\<open>convert_search_results_markdown.py\<close>,
  translated from that file on its own; its parts carry the prefix \<open>md\<close>.\<close>

fun md_query_loop :: "string \<Rightarrow> string list \<Rightarrow> string" where
  "md_query_loop q [] = q"
| "md_query_loop q (line # ls) =
     (if startswith line ''Query: '' then strip (replace line ''Query: '' [])
      else md_query_loop q ls)"

definition md_lookahead_step ::
  "string list \<Rightarrow> nat \<Rightarrow> nat \<Rightarrow> metadata \<Rightarrow> string list \<Rightarrow> error + outcome" where
  "md_lookahead_step lines i j md notes_lines =
     (case getitem lines j of Inl e \<Rightarrow> Inl e | Inr raw \<Rightarrow>
      let next_line = strip raw in
      if next_line = [] then
        (if j + 1 < length lines then
           (case getitem lines (j + 1) of Inl e \<Rightarrow> Inl e | Inr raw1 \<Rightarrow>
              if match_number_dot (strip raw1) then Inr Break
              else Inr (Continue md notes_lines))
         else Inr (Continue md notes_lines))
      else if match_number_dot next_line then Inr Break
      else if startswith next_line ''Units: '' then
        Inr (Continue (md\<lparr>units := strip (replace next_line ''Units: '' [])\<rparr>) notes_lines)
      else if startswith next_line ''Frequency: '' then
        Inr (Continue (md\<lparr>frequency := strip (replace next_line ''Frequency: '' [])\<rparr>) notes_lines)
      else if startswith next_line ''Last Updated: '' then
        Inr (Continue (md\<lparr>last_updated := strip (replace next_line ''Last Updated: '' [])\<rparr>)
               notes_lines)
      else if startswith next_line ''Notes: '' then
        (let note_text = strip (replace next_line ''Notes: '' []) in
         if note_text \<noteq> ''No description available''
         then Inr (Continue md (notes_lines @ [note_text]))
         else Inr (Continue md notes_lines))
      else if notes_lines \<noteq> [] then Inr (Continue md (notes_lines @ [next_line]))
      else if j > i + 1 then
        (case getitem lines (j - 1) of Inl e \<Rightarrow> Inl e | Inr prev \<Rightarrow>
           if contains ''Notes:'' prev then Inr (Continue md (notes_lines @ [next_line]))
           else Inr (Continue md notes_lines))
      else Inr (Continue md notes_lines))"

function md_lookahead ::
  "string list \<Rightarrow> nat \<Rightarrow> nat \<Rightarrow> metadata \<Rightarrow> string list
     \<Rightarrow> error + (nat \<times> metadata \<times> string list)" where
  "md_lookahead lines i j md notes_lines =
     (if j < length lines then
        (case md_lookahead_step lines i j md notes_lines of
           Inl e \<Rightarrow> Inl e
         | Inr Break \<Rightarrow> Inr (j, md, notes_lines)
         | Inr (Continue md' notes_lines') \<Rightarrow> md_lookahead lines i (j + 1) md' notes_lines')
      else Inr (j, md, notes_lines))"
  by pat_completeness auto
termination
  by (relation "measure (\<lambda>(lines, i, j, md, notes_lines). length lines - j)") auto

declare md_lookahead.simps [simp del]

definition md_join_notes :: "metadata \<Rightarrow> string list \<Rightarrow> metadata" where
  "md_join_notes md notes_lines =
     (if notes_lines \<noteq> [] then md\<lparr>notes_field := strip (join '' '' notes_lines)\<rparr> else md)"

definition md_skip_line :: "string \<Rightarrow> bool" where
  "md_skip_line line =
     (line = [] \<or>
      startswith_any line [''FRED Series'', ''Query:'', ''Timestamp:'', ''Total Results:''])"

lemma md_lookahead_index_grows:
  "md_lookahead lines i j md nl = Inr (j', md', nl') \<Longrightarrow> j \<le> j'"
proof (induction "length lines - j" arbitrary: j md nl rule: less_induct)
  case less
  note unfold = md_lookahead.simps[of lines i j md nl]
  show ?case
  proof (cases "j < length lines")
    case False
    with less.prems show ?thesis by (simp add: unfold)
  next
    case True
    then have smaller: "length lines - Suc j < length lines - j" by simp
    show ?thesis
    proof (cases "md_lookahead_step lines i j md nl")
      case (Inl e)
      with True less.prems show ?thesis by (simp add: unfold)
    next
      case (Inr out)
      show ?thesis
      proof (cases out)
        case Break
        with True Inr less.prems show ?thesis by (simp add: unfold)
      next
        case (Continue md1 nl1)
        with True Inr less.prems
        have "md_lookahead lines i (Suc j) md1 nl1 = Inr (j', md', nl')"
          by (simp add: unfold)
        from less.hyps[OF smaller this] show ?thesis by simp
      qed
    qed
  qed
qed

function md_scan :: "string list \<Rightarrow> nat \<Rightarrow> series_record list \<Rightarrow> error + series_record list" where
  "md_scan lines i res =
     (if i < length lines then
        (case getitem lines i of Inl e \<Rightarrow> Inl e | Inr raw \<Rightarrow>
         let line = strip raw in
         if md_skip_line line then md_scan lines (i + 1) res
         else
           (case match_series line of
              Some (g1, g2) \<Rightarrow>
                (case md_lookahead lines i (i + 1) empty_metadata [] of
                   Inl e \<Rightarrow> Inl e
                 | Inr (j, md, notes_lines) \<Rightarrow>
                     md_scan lines j
                       (res @ [make_record (strip g1) (strip g2) (md_join_notes md notes_lines)]))
            | None \<Rightarrow> md_scan lines (i + 1) res))
      else Inr res)"
  by pat_completeness auto
termination
proof (relation "measure (\<lambda>(lines, i, res). length lines - i)")
  show "wf (measure (\<lambda>(lines, i, res). length lines - i))" by simp
qed (auto dest: md_lookahead_index_grows)

declare md_scan.simps [simp del]

definition md_parse_lines :: "string \<Rightarrow> string list \<Rightarrow> error + parsed_result" where
  "md_parse_lines stem lines =
     (if lines = [] then Inr \<lparr>query = stem, result_count = None, results = []\<rparr>
      else
        let query = md_query_loop stem (take 10 lines) in
        case md_scan lines 0 [] of
          Inl e \<Rightarrow> Inl e
        | Inr rs \<Rightarrow> Inr \<lparr>query = query, result_count = Some (length rs), results = rs\<rparr>)"

definition md_parse_search_result_file :: "string \<Rightarrow> string \<Rightarrow> error + parsed_result" where
  "md_parse_search_result_file stem content = md_parse_lines stem (split_nl (strip content))"

section \<open>Notions used in the statements\<close>

text \<open>The condition under which the inner loop leaves at index \<open>j\<close>: the stripped
  line begins with digits and a dot, or it is empty and the line after it does.\<close>

definition stops_at :: "string list \<Rightarrow> nat \<Rightarrow> bool" where
  "stops_at lines j =
     (if strip (lines ! j) = []
      then j + 1 < length lines \<and> match_number_dot (strip (lines ! (j + 1)))
      else match_number_dot (strip (lines ! j)))"

text \<open>What a raw line contributes as a record start: the stripped groups of the
  series pattern on the stripped line, if it matches.\<close>

definition start_fields :: "string \<Rightarrow> (string \<times> string) option" where
  "start_fields raw = map_option (\<lambda>(g1, g2). (strip g1, strip g2)) (match_series (strip raw))"

definition record_key :: "series_record \<Rightarrow> string \<times> string" where
  "record_key r = (series_id r, title r)"

text \<open>
  The record-start pattern as the specification writes it,
  \<^verbatim>\<open>^\d+\.\s+([A-Z0-9]+)\s+-\s+(.+)$\<close> with a positive integer before the dot, on a
  string without line feed: any amount of whitespace may follow the dot and surround
  the dash. After the dash, \<^verbatim>\<open>\s+(.+)\<close> needs one whitespace character and one
  more character of any kind.
\<close>

definition spec_record_start :: "string \<Rightarrow> bool" where
  "spec_record_start s =
     (let ds = takeWhile is_digit s;
          r1 = dropWhile is_digit s;
          r2 = dropWhile is_space (drop 1 r1);
          r3 = dropWhile is_idchar r2;
          r4 = dropWhile is_space r3;
          ws = takeWhile is_space (drop 1 r4);
          r5 = dropWhile is_space (drop 1 r4)
      in list_ex (\<lambda>c. c \<noteq> CHR ''0'') ds \<and> startswith r1 ''.''
         \<and> takeWhile is_space (drop 1 r1) \<noteq> []
         \<and> takeWhile is_idchar r2 \<noteq> []
         \<and> takeWhile is_space r3 \<noteq> []
         \<and> startswith r4 ''-''
         \<and> ws \<noteq> [] \<and> (r5 \<noteq> [] \<or> 2 \<le> length ws))"

text \<open>The four prefixes that the inner loop knows, tested on a stripped line.\<close>

definition known_prefix :: "string \<Rightarrow> bool" where
  "known_prefix s = startswith_any s [''Units: '', ''Frequency: '', ''Last Updated: '', ''Notes: '']"

text \<open>A string without whitespace at either end.\<close>

definition trimmed :: "string \<Rightarrow> bool" where
  "trimmed s = (s = [] \<or> (\<not> is_space (hd s) \<and> \<not> is_space (last s)))"

text \<open>The invariant of the inner loop for the fields and the notes, and the property
  of a finished record.\<close>

definition lookahead_inv :: "metadata \<Rightarrow> string list \<Rightarrow> bool" where
  "lookahead_inv md nl =
     (trimmed (frequency md) \<and> trimmed (units md) \<and> trimmed (last_updated md)
      \<and> notes_field md = [] \<and> list_all trimmed nl)"

definition record_trimmed :: "series_record \<Rightarrow> bool" where
  "record_trimmed r =
     (trimmed (series_id r) \<and> trimmed (title r) \<and> trimmed (frequency r)
      \<and> trimmed (units r) \<and> trimmed (last_updated r) \<and> trimmed (notes_field r)
      \<and> (\<exists>nl. list_all trimmed nl \<and> notes_field r = strip (join '' '' nl)))"



text \<open>What a stripped line with one of the four prefixes does to the metadata and
  the notes.\<close>

definition field_effect :: "string \<Rightarrow> metadata \<Rightarrow> string list \<Rightarrow> metadata \<times> string list" where
  "field_effect s md nl =
     (if startswith s ''Units: '' then (md\<lparr>units := strip (replace s ''Units: '' [])\<rparr>, nl)
      else if startswith s ''Frequency: '' then
        (md\<lparr>frequency := strip (replace s ''Frequency: '' [])\<rparr>, nl)
      else if startswith s ''Last Updated: '' then
        (md\<lparr>last_updated := strip (replace s ''Last Updated: '' [])\<rparr>, nl)
      else if startswith s ''Notes: '' then
        (md, if strip (replace s ''Notes: '' []) \<noteq> ''No description available''
             then nl @ [strip (replace s ''Notes: '' [])] else nl)
      else (md, nl))"

text \<open>The place of the first prefix that a stripped line has in the chain of tests of
  the inner loop (4 when it has none), and a stripped line that the loop treats as a
  continuation: not blank, not a stop, none of the prefixes.\<close>

definition which_prefix :: "string \<Rightarrow> nat" where
  "which_prefix s =
     (if startswith s ''Units: '' then 0
      else if startswith s ''Frequency: '' then 1
      else if startswith s ''Last Updated: '' then 2
      else if startswith s ''Notes: '' then 3
      else 4)"

definition continuation_line :: "string \<Rightarrow> bool" where
  "continuation_line s = (s \<noteq> [] \<and> \<not> match_number_dot s \<and> \<not> known_prefix s)"

text \<open>The effect of a raw field line on the pair of metadata and notes; a stripped
  \<^verbatim>\<open>Notes: \<close> line whose text is kept; and the condition on a run of field lines
  and the lines after it under which the order of the run cannot matter: the next line
  is not a continuation line, or the run leaves the notes non-empty.\<close>

definition apply_field :: "string \<Rightarrow> metadata \<times> string list \<Rightarrow> metadata \<times> string list" where
  "apply_field raw st = field_effect (strip raw) (fst st) (snd st)"

definition kept_notes_line :: "string \<Rightarrow> bool" where
  "kept_notes_line s =
     (which_prefix s = 3 \<and> strip (replace s ''Notes: '' []) \<noteq> ''No description available'')"

definition run_closed :: "string list \<Rightarrow> string list \<Rightarrow> bool" where
  "run_closed run rest =
     ((case rest of [] \<Rightarrow> True | l # _ \<Rightarrow> \<not> continuation_line (strip l))
      \<or> list_ex (\<lambda>l. kept_notes_line (strip l)) run)"

section \<open>The loops, one passage at a time\<close>

lemma split_nl_not_Nil: "split_nl s \<noteq> []"
  by (subst split_nl.simps) (simp split: list.split)

lemma lookahead_step_returns:
  "j < length lines \<Longrightarrow> \<exists>out. lookahead_step lines i j md nl = Inr out"
  by (simp add: lookahead_step_def getitem_def Let_def)

lemma lookahead_end:
  "\<not> j < length lines \<Longrightarrow> lookahead lines i j md nl = Inr (j, md, nl)"
  by (simp add: lookahead.simps[of lines i j])

lemma lookahead_break:
  "j < length lines \<Longrightarrow> lookahead_step lines i j md nl = Inr Break
     \<Longrightarrow> lookahead lines i j md nl = Inr (j, md, nl)"
  by (simp add: lookahead.simps[of lines i j])

lemma lookahead_continue:
  "j < length lines \<Longrightarrow> lookahead_step lines i j md nl = Inr (Continue md1 nl1)
     \<Longrightarrow> lookahead lines i j md nl = lookahead lines i (Suc j) md1 nl1"
  by (simp add: lookahead.simps[of lines i j])

lemma lookahead_returns: "\<exists>j' md' nl'. lookahead lines i j md nl = Inr (j', md', nl')"
proof (induction "length lines - j" arbitrary: j md nl rule: less_induct)
  case less
  show ?case
  proof (cases "j < length lines")
    case False
    then show ?thesis by (simp add: lookahead_end)
  next
    case True
    then obtain out where out: "lookahead_step lines i j md nl = Inr out"
      using lookahead_step_returns by blast
    show ?thesis
    proof (cases out)
      case Break
      with True out show ?thesis by (simp add: lookahead_break)
    next
      case (Continue md1 nl1)
      from True have "length lines - Suc j < length lines - j" by simp
      from less[OF this] True out Continue show ?thesis
        by (simp add: lookahead_continue)
    qed
  qed
qed

lemma scan_end: "\<not> i < length lines \<Longrightarrow> scan lines i acc = Inr acc"
  by (simp add: scan.simps[of lines i])

lemma scan_skip:
  "i < length lines \<Longrightarrow> skip_line (strip (lines ! i))
     \<Longrightarrow> scan lines i acc = scan lines (Suc i) acc"
  by (simp add: scan.simps[of lines i] getitem_def)

lemma scan_stray:
  "i < length lines \<Longrightarrow> \<not> skip_line (strip (lines ! i))
     \<Longrightarrow> match_series (strip (lines ! i)) = None
     \<Longrightarrow> scan lines i acc = scan lines (Suc i) acc"
  by (simp add: scan.simps[of lines i] getitem_def)

lemma scan_record:
  "i < length lines \<Longrightarrow> \<not> skip_line (strip (lines ! i))
     \<Longrightarrow> match_series (strip (lines ! i)) = Some (g1, g2)
     \<Longrightarrow> lookahead lines i (Suc i) empty_metadata [] = Inr (j, md, nl)
     \<Longrightarrow> scan lines i acc
          = scan lines j (acc @ [make_record (strip g1) (strip g2) (join_notes md nl)])"
  by (simp add: scan.simps[of lines i] getitem_def)

lemma scan_returns: "\<exists>rs. scan lines i acc = Inr rs"
proof (induction "length lines - i" arbitrary: i acc rule: less_induct)
  case less
  show ?case
  proof (cases "i < length lines")
    case False
    then show ?thesis by (simp add: scan_end)
  next
    case True
    then have smaller: "length lines - Suc i < length lines - i" by simp
    show ?thesis
    proof (cases "skip_line (strip (lines ! i))")
      case skip: True
      with True less[OF smaller] show ?thesis by (simp add: scan_skip)
    next
      case noskip: False
      show ?thesis
      proof (cases "match_series (strip (lines ! i))")
        case None
        with True noskip less[OF smaller] show ?thesis by (simp add: scan_stray)
      next
        case (Some g)
        obtain g1 g2 where g: "g = (g1, g2)" by (cases g)
        obtain j md nl where la: "lookahead lines i (Suc i) empty_metadata [] = Inr (j, md, nl)"
          using lookahead_returns by blast
        then have "Suc i \<le> j" by (rule lookahead_index_grows)
        with True have "length lines - j < length lines - i" by simp
        from less[OF this] show ?thesis
          using True noskip Some g la by (simp add: scan_record)
      qed
    qed
  qed
qed

lemma parse_lines_scan:
  "lines \<noteq> [] \<Longrightarrow> scan lines 0 [] = Inr rs
     \<Longrightarrow> parse_lines stem lines
          = Inr \<lparr>query = query_loop stem (take 10 lines), result_count = Some (length rs),
                 results = rs\<rparr>"
  by (simp add: parse_lines_def)

section \<open>Where the inner loop stops\<close>

lemma lookahead_step_break_iff:
  "j < length lines \<Longrightarrow> lookahead_step lines i j md nl = Inr Break \<longleftrightarrow> stops_at lines j"
  by (simp add: lookahead_step_def getitem_def Let_def stops_at_def)

lemma lookahead_stop_index:
  assumes "lookahead lines i j md nl = Inr (j', md', nl')" and "j \<le> length lines"
  shows "j \<le> j' \<and> j' \<le> length lines \<and> (j' < length lines \<longrightarrow> stops_at lines j')
           \<and> (\<forall>k. j \<le> k \<and> k < j' \<longrightarrow> \<not> stops_at lines k)"
  using assms
proof (induction "length lines - j" arbitrary: j md nl rule: less_induct)
  case less
  show ?case
  proof (cases "j < length lines")
    case False
    with less.prems show ?thesis by (auto simp: lookahead_end)
  next
    case True
    then obtain out where out: "lookahead_step lines i j md nl = Inr out"
      using lookahead_step_returns by blast
    show ?thesis
    proof (cases out)
      case Break
      with True out less.prems have "j' = j" by (simp add: lookahead_break)
      moreover from True out Break have "stops_at lines j"
        by (simp add: lookahead_step_break_iff)
      ultimately show ?thesis using True by auto
    next
      case (Continue md1 nl1)
      from True have smaller: "length lines - Suc j < length lines - j" by simp
      from True out Continue less.prems
      have next_run: "lookahead lines i (Suc j) md1 nl1 = Inr (j', md', nl')"
        by (simp add: lookahead_continue)
      from True have "Suc j \<le> length lines" by simp
      from less.hyps[OF smaller next_run this]
      have ih: "Suc j \<le> j'" "j' \<le> length lines" "j' < length lines \<longrightarrow> stops_at lines j'"
        "\<forall>k. Suc j \<le> k \<and> k < j' \<longrightarrow> \<not> stops_at lines k" by simp_all
      from True out Continue have here: "\<not> stops_at lines j"
        using lookahead_step_break_iff[of j lines i md nl] by simp
      have "\<forall>k. j \<le> k \<and> k < j' \<longrightarrow> \<not> stops_at lines k"
      proof (intro allI impI)
        fix k assume "j \<le> k \<and> k < j'"
        then have "k = j \<or> (Suc j \<le> k \<and> k < j')" by auto
        with here ih(4) show "\<not> stops_at lines k" by blast
      qed
      with ih show ?thesis by simp
    qed
  qed
qed

section \<open>Which lines become records\<close>

lemma match_series_number_dot:
  "match_series s = Some g \<Longrightarrow> s \<noteq> [] \<and> match_number_dot s"
proof -
  assume m: "match_series s = Some g"
  then have d: "takeWhile is_digit s \<noteq> []" and p: "prefix ''. '' (dropWhile is_digit s)"
    by (auto simp: match_series_def startswith_def Let_def split: if_splits)
  from p have "prefix ''.'' (dropWhile is_digit s)"
    by (auto simp: prefix_def)
  with d show ?thesis by (auto simp: match_number_dot_def startswith_def)
qed

lemma no_digit_no_match: "s \<noteq> [] \<Longrightarrow> \<not> is_digit (hd s) \<Longrightarrow> match_series s = None"
  by (cases s) (simp_all add: match_series_def)

lemma skip_line_no_match: "skip_line s \<Longrightarrow> match_series s = None"
proof (cases "s = []")
  case True
  then show ?thesis by (simp add: match_series_def)
next
  case False
  assume "skip_line s"
  with False have "\<not> is_digit (hd s)"
    by (auto simp: skip_line_def startswith_any_def startswith_def is_digit_def prefix_def)
  with False show ?thesis by (rule no_digit_no_match)
qed

lemma start_fields_stops:
  "k < length lines \<Longrightarrow> start_fields (lines ! k) \<noteq> None \<Longrightarrow> stops_at lines k"
  by (auto simp: start_fields_def stops_at_def dest: match_series_number_dot)

lemma map_filter_drop_skip:
  "i \<le> j \<Longrightarrow> j \<le> length xs \<Longrightarrow> \<forall>k. i \<le> k \<and> k < j \<longrightarrow> f (xs ! k) = None
     \<Longrightarrow> List.map_filter f (drop i xs) = List.map_filter f (drop j xs)"
proof (induction "j - i" arbitrary: i)
  case 0
  then show ?case by simp
next
  case (Suc d)
  then have i: "i < length xs" "i < j" by simp_all
  from Suc.prems i have none: "f (xs ! i) = None" by simp
  have "List.map_filter f (drop (Suc i) xs) = List.map_filter f (drop j xs)"
    using Suc.hyps(1)[of "Suc i"] Suc.hyps(2) Suc.prems i by simp
  moreover have "drop i xs = xs ! i # drop (Suc i) xs"
    using i(1) by (simp add: Cons_nth_drop_Suc)
  ultimately show ?case using none by (simp add: List.map_filter_simps)
qed

lemma scan_emits:
  assumes "scan lines i acc = Inr rs" and "i \<le> length lines"
  shows "map record_key rs = map record_key acc @ List.map_filter start_fields (drop i lines)"
  using assms
proof (induction "length lines - i" arbitrary: i acc rule: less_induct)
  case less
  show ?case
  proof (cases "i < length lines")
    case False
    with less.prems show ?thesis by (simp add: scan_end List.map_filter_simps)
  next
    case True
    then have smaller: "length lines - Suc i < length lines - i"
      and suc: "Suc i \<le> length lines" by simp_all
    have dr: "drop i lines = lines ! i # drop (Suc i) lines"
      using True by (simp add: Cons_nth_drop_Suc)
    show ?thesis
    proof (cases "skip_line (strip (lines ! i))")
      case skip: True
      then have "start_fields (lines ! i) = None"
        by (simp add: start_fields_def skip_line_no_match)
      moreover from True skip less.prems have "scan lines (Suc i) acc = Inr rs"
        by (simp add: scan_skip)
      ultimately show ?thesis
        using less.hyps[OF smaller _ suc] dr by (simp add: List.map_filter_simps)
    next
      case noskip: False
      show ?thesis
      proof (cases "match_series (strip (lines ! i))")
        case None
        then have "start_fields (lines ! i) = None" by (simp add: start_fields_def)
        moreover from True noskip None less.prems have "scan lines (Suc i) acc = Inr rs"
          by (simp add: scan_stray)
        ultimately show ?thesis
          using less.hyps[OF smaller _ suc] dr by (simp add: List.map_filter_simps)
      next
        case (Some g)
        obtain g1 g2 where g: "g = (g1, g2)" by (cases g)
        obtain j md nl where la: "lookahead lines i (Suc i) empty_metadata [] = Inr (j, md, nl)"
          using lookahead_returns by blast
        from lookahead_stop_index[OF la suc]
        have j: "Suc i \<le> j" "j \<le> length lines"
          and quiet: "\<forall>k. Suc i \<le> k \<and> k < j \<longrightarrow> \<not> stops_at lines k" by simp_all
        have "\<forall>k. Suc i \<le> k \<and> k < j \<longrightarrow> start_fields (lines ! k) = None"
        proof (intro allI impI)
          fix k assume k: "Suc i \<le> k \<and> k < j"
          with j have "k < length lines" by simp
          with quiet k start_fields_stops show "start_fields (lines ! k) = None" by blast
        qed
        with j have tail: "List.map_filter start_fields (drop (Suc i) lines)
            = List.map_filter start_fields (drop j lines)"
          by (intro map_filter_drop_skip) simp_all
        define r where "r = make_record (strip g1) (strip g2) (join_notes md nl)"
        from True noskip Some g la less.prems have "scan lines j (acc @ [r]) = Inr rs"
          by (simp add: scan_record r_def)
        moreover from j True have "length lines - j < length lines - i" by simp
        ultimately have "map record_key rs
            = map record_key (acc @ [r]) @ List.map_filter start_fields (drop j lines)"
          using less.hyps j(2) by blast
        moreover have "start_fields (lines ! i) = Some (record_key r)"
          using Some g by (simp add: start_fields_def r_def record_key_def make_record_def)
        ultimately show ?thesis using dr tail by (simp add: List.map_filter_simps)
      qed
    qed
  qed
qed

lemma parse_lines_emits:
  "\<exists>r. parse_lines stem lines = Inr r
       \<and> map record_key (results r) = List.map_filter start_fields lines"
proof (cases "lines = []")
  case True
  then show ?thesis by (simp add: parse_lines_def List.map_filter_simps)
next
  case False
  obtain rs where rs: "scan lines 0 [] = Inr rs" using scan_returns by blast
  from scan_emits[OF rs] have "map record_key rs = List.map_filter start_fields lines" by simp
  with False rs show ?thesis by (simp add: parse_lines_scan)
qed

lemma length_map_filter_le: "length (List.map_filter f xs) \<le> length xs"
  by (simp add: List.map_filter_def)

lemma map_filter_all_None: "\<forall>x\<in>set xs. f x = None \<Longrightarrow> List.map_filter f xs = []"
  by (induction xs) (simp_all add: List.map_filter_simps)

section \<open>Stripped strings\<close>


lemma trimmed_strip: "trimmed (strip s)"
proof (cases "strip s = []")
  case True
  then show ?thesis by (simp add: trimmed_def)
next
  case False
  let ?t = "dropWhile is_space s"
  let ?u = "dropWhile is_space (rev ?t)"
  have u: "strip s = rev ?u" by (simp add: strip_def)
  with False have une: "?u \<noteq> []" by simp
  then have "\<not> is_space (hd ?u)" by (rule hd_dropWhile)
  with une have last_ok: "\<not> is_space (last (strip s))" by (simp add: u last_rev)
  have "rev ?t = takeWhile is_space (rev ?t) @ ?u" by simp
  then have "?t = rev ?u @ rev (takeWhile is_space (rev ?t))"
    by (metis rev_append rev_rev_ident)
  with une have "hd ?t = hd (rev ?u)" by (metis hd_append2 rev_is_Nil_conv)
  moreover have "?t \<noteq> []"
  proof
    assume e: "?t = []"
    from une show False unfolding e by simp
  qed
  then have "\<not> is_space (hd ?t)" by (rule hd_dropWhile)
  ultimately have "\<not> is_space (hd (strip s))" by (simp add: u)
  with last_ok show ?thesis by (simp add: trimmed_def)
qed

section \<open>Lines with a known prefix\<close>

lemma known_prefix_head:
  "known_prefix s \<Longrightarrow> s \<noteq> [] \<and> hd s \<in> {CHR ''U'', CHR ''F'', CHR ''L'', CHR ''N''}"
  by (auto simp: known_prefix_def startswith_any_def startswith_def prefix_def)

lemma known_prefix_no_number: "known_prefix s \<Longrightarrow> \<not> match_number_dot s"
proof -
  assume "known_prefix s"
  then have "s \<noteq> []" and "hd s \<in> {CHR ''U'', CHR ''F'', CHR ''L'', CHR ''N''}"
    using known_prefix_head by blast+
  then have "takeWhile is_digit s = []"
    by (cases s) (auto simp: is_digit_def)
  then show ?thesis by (simp add: match_number_dot_def)
qed

lemma field_step:
  assumes "j < length lines" and "known_prefix (strip (lines ! j))"
  shows "lookahead_step lines i j md nl
         = Inr (Continue (fst (field_effect (strip (lines ! j)) md nl))
                         (snd (field_effect (strip (lines ! j)) md nl)))"
proof -
  let ?s = "strip (lines ! j)"
  from assms(2) have "?s \<noteq> []" "\<not> match_number_dot ?s"
    using known_prefix_head known_prefix_no_number by blast+
  then have base: "lookahead_step lines i j md nl =
      (if startswith ?s ''Units: '' then
         Inr (Continue (md\<lparr>units := strip (replace ?s ''Units: '' [])\<rparr>) nl)
       else if startswith ?s ''Frequency: '' then
         Inr (Continue (md\<lparr>frequency := strip (replace ?s ''Frequency: '' [])\<rparr>) nl)
       else if startswith ?s ''Last Updated: '' then
         Inr (Continue (md\<lparr>last_updated := strip (replace ?s ''Last Updated: '' [])\<rparr>) nl)
       else
         (let note_text = strip (replace ?s ''Notes: '' []) in
          if note_text \<noteq> ''No description available''
          then Inr (Continue md (nl @ [note_text]))
          else Inr (Continue md nl)))"
    using assms
    by (auto simp add: lookahead_step_def getitem_def known_prefix_def startswith_any_def Let_def)
  consider (u) "startswith ?s ''Units: ''"
    | (f) "\<not> startswith ?s ''Units: ''" "startswith ?s ''Frequency: ''"
    | (l) "\<not> startswith ?s ''Units: ''" "\<not> startswith ?s ''Frequency: ''"
        "startswith ?s ''Last Updated: ''"
    | (n) "\<not> startswith ?s ''Units: ''" "\<not> startswith ?s ''Frequency: ''"
        "\<not> startswith ?s ''Last Updated: ''" "startswith ?s ''Notes: ''"
    using assms(2) by (auto simp: known_prefix_def startswith_any_def)
  then show ?thesis
  proof cases
    case u
    then show ?thesis by (simp add: base field_effect_def)
  next
    case f
    then show ?thesis by (simp add: base field_effect_def)
  next
    case l
    then show ?thesis by (simp add: base field_effect_def)
  next
    case n
    then show ?thesis by (simp add: base field_effect_def Let_def)
  qed
qed


section \<open>The sentinel\<close>











section \<open>Stored values are stripped\<close>

lemma lookahead_step_inv:
  assumes "lookahead_step lines i j md nl = Inr (Continue md1 nl1)" and "lookahead_inv md nl"
  shows "lookahead_inv md1 nl1"
  using assms
  by (auto simp: lookahead_step_def Let_def lookahead_inv_def trimmed_strip
      split: sum.splits if_splits)

lemma lookahead_inv_end:
  assumes "lookahead lines i j md nl = Inr (j', md', nl')" and "lookahead_inv md nl"
  shows "lookahead_inv md' nl'"
  using assms
proof (induction "length lines - j" arbitrary: j md nl rule: less_induct)
  case less
  show ?case
  proof (cases "j < length lines")
    case False
    with less.prems show ?thesis by (simp add: lookahead_end)
  next
    case True
    then obtain out where out: "lookahead_step lines i j md nl = Inr out"
      using lookahead_step_returns by blast
    show ?thesis
    proof (cases out)
      case Break
      with True out less.prems show ?thesis by (simp add: lookahead_break)
    next
      case (Continue md1 nl1)
      from True have smaller: "length lines - Suc j < length lines - j" by simp
      from True out Continue less.prems(1)
      have "lookahead lines i (Suc j) md1 nl1 = Inr (j', md', nl')"
        by (simp add: lookahead_continue)
      moreover from out Continue less.prems(2) have "lookahead_inv md1 nl1"
        by (auto intro: lookahead_step_inv)
      ultimately show ?thesis using less.hyps[OF smaller] by blast
    qed
  qed
qed

lemma record_trimmed_make:
  assumes "lookahead_inv md nl"
  shows "record_trimmed (make_record (strip g1) (strip g2) (join_notes md nl))"
proof -
  have "notes_field (join_notes md nl) = strip (join '' '' nl)"
    using assms by (cases nl) (simp_all add: join_notes_def lookahead_inv_def strip_def)
  with assms show ?thesis
    by (auto simp: record_trimmed_def make_record_def trimmed_strip lookahead_inv_def
        join_notes_def)
qed

lemma scan_trimmed:
  assumes "scan lines i acc = Inr rs" and "list_all record_trimmed acc"
  shows "list_all record_trimmed rs"
  using assms
proof (induction "length lines - i" arbitrary: i acc rule: less_induct)
  case less
  show ?case
  proof (cases "i < length lines")
    case False
    with less.prems show ?thesis by (simp add: scan_end)
  next
    case True
    then have smaller: "length lines - Suc i < length lines - i" by simp
    show ?thesis
    proof (cases "skip_line (strip (lines ! i))")
      case skip: True
      with True less.prems less.hyps[OF smaller] show ?thesis by (simp add: scan_skip)
    next
      case noskip: False
      show ?thesis
      proof (cases "match_series (strip (lines ! i))")
        case None
        with True noskip less.prems less.hyps[OF smaller] show ?thesis
          by (simp add: scan_stray)
      next
        case (Some g)
        obtain g1 g2 where g: "g = (g1, g2)" by (cases g)
        obtain j md nl where la: "lookahead lines i (Suc i) empty_metadata [] = Inr (j, md, nl)"
          using lookahead_returns by blast
        then have "Suc i \<le> j" by (rule lookahead_index_grows)
        with True have smaller': "length lines - j < length lines - i" by simp
        have "lookahead_inv empty_metadata []"
          by (simp add: lookahead_inv_def empty_metadata_def trimmed_def)
        with la have "lookahead_inv md nl" by (rule lookahead_inv_end)
        then have "record_trimmed (make_record (strip g1) (strip g2) (join_notes md nl))"
          by (rule record_trimmed_make)
        with less.prems(2)
        have "list_all record_trimmed
            (acc @ [make_record (strip g1) (strip g2) (join_notes md nl)])"
          by simp
        moreover from True noskip Some g la less.prems(1)
        have "scan lines j (acc @ [make_record (strip g1) (strip g2) (join_notes md nl)]) = Inr rs"
          by (simp add: scan_record)
        ultimately show ?thesis using less.hyps[OF smaller'] by blast
      qed
    qed
  qed
qed

section \<open>The order of the field lines\<close>

lemma lookahead_over_run:
  assumes "\<forall>l\<in>set run. known_prefix (strip l)"
  shows "lookahead (A @ run @ rest) i (length A) md nl
         = lookahead (A @ run @ rest) i (length A + length run)
             (fst (fold apply_field run (md, nl))) (snd (fold apply_field run (md, nl)))"
  using assms
proof (induction run arbitrary: A md nl)
  case Nil
  then show ?case by simp
next
  case (Cons l run)
  let ?L = "A @ (l # run) @ rest"
  have here: "length A < length ?L" "?L ! length A = l" by simp_all
  from Cons.prems have kp: "known_prefix (strip (?L ! length A))" by (simp add: here)
  obtain md1 nl1 where eff: "field_effect (strip l) md nl = (md1, nl1)" by (cases "field_effect (strip l) md nl")
  from field_step[OF here(1) kp, of i md nl] eff
  have "lookahead_step ?L i (length A) md nl = Inr (Continue md1 nl1)" by (simp add: here)
  with here(1) have "lookahead ?L i (length A) md nl = lookahead ?L i (Suc (length A)) md1 nl1"
    by (rule lookahead_continue)
  moreover have "?L = (A @ [l]) @ run @ rest" by simp
  moreover from Cons.prems have "\<forall>l\<in>set run. known_prefix (strip l)" by simp
  from Cons.IH[OF this, of "A @ [l]" md1 nl1]
  have "lookahead ((A @ [l]) @ run @ rest) i (Suc (length A)) md1 nl1
      = lookahead ((A @ [l]) @ run @ rest) i (Suc (length A) + length run)
          (fst (fold apply_field run (md1, nl1))) (snd (fold apply_field run (md1, nl1)))"
    by simp
  moreover have "fold apply_field (l # run) (md, nl) = fold apply_field run (md1, nl1)"
    using eff by (simp add: apply_field_def)
  ultimately show ?case by simp
qed

lemma which_prefix_effect:
  "which_prefix s = 0 \<Longrightarrow> field_effect s md nl = (md\<lparr>units := strip (replace s ''Units: '' [])\<rparr>, nl)"
  "which_prefix s = 1 \<Longrightarrow> field_effect s md nl = (md\<lparr>frequency := strip (replace s ''Frequency: '' [])\<rparr>, nl)"
  "which_prefix s = 2 \<Longrightarrow> field_effect s md nl = (md\<lparr>last_updated := strip (replace s ''Last Updated: '' [])\<rparr>, nl)"
  "which_prefix s = 3 \<Longrightarrow> field_effect s md nl =
      (md, if strip (replace s ''Notes: '' []) \<noteq> ''No description available''
           then nl @ [strip (replace s ''Notes: '' [])] else nl)"
  "which_prefix s = 4 \<Longrightarrow> field_effect s md nl = (md, nl)"
  by (simp_all add: which_prefix_def field_effect_def split: if_splits)

lemma which_prefix_range: "which_prefix s \<in> {0, 1, 2, 3, 4}"
  by (simp add: which_prefix_def)

lemma field_effects_commute:
  assumes "which_prefix (strip x) \<noteq> which_prefix (strip y)"
  shows "apply_field x (apply_field y st) = apply_field y (apply_field x st)"
proof -
  obtain md nl where st: "st = (md, nl)" by (cases st)
  from which_prefix_range[of "strip x"] which_prefix_range[of "strip y"] assms
  show ?thesis
    unfolding apply_field_def st
    by (auto simp: which_prefix_effect)
qed

lemma fold_fields_permuted:
  assumes "mset run' = mset run"
    and "distinct (map (\<lambda>l. which_prefix (strip l)) run)"
  shows "fold apply_field run' st = fold apply_field run st"
proof (rule fold_permuted_eq[where P = "\<lambda>_. True"])
  show "mset run' = mset run" by fact
next
  fix x y z
  assume "x \<in> set run'" "y \<in> set run'"
  with assms(1) have xy: "x \<in> set run" "y \<in> set run" by (metis set_mset_mset)+
  show "apply_field x (apply_field y z) = apply_field y (apply_field x z)"
  proof (cases "x = y")
    case True
    then show ?thesis by simp
  next
    case False
    from assms(2) have "inj_on (\<lambda>l. which_prefix (strip l)) (set run)"
      by (simp add: distinct_map)
    with xy False have "which_prefix (strip x) \<noteq> which_prefix (strip y)"
      by (auto dest: inj_onD)
    then show ?thesis by (rule field_effects_commute)
  qed
qed simp_all

lemma continuation_step:
  assumes "j < length lines" and "strip (lines ! j) \<noteq> []"
    and "\<not> match_number_dot (strip (lines ! j))" and "\<not> known_prefix (strip (lines ! j))"
  shows "lookahead_step lines i j md nl
         = Inr (Continue md
             (if nl \<noteq> [] \<or> (i + 1 < j \<and> contains ''Notes:'' (lines ! (j - 1)))
              then nl @ [strip (lines ! j)] else nl))"
proof -
  from assms(1) have "j - 1 < length lines" by simp
  with assms show ?thesis
    by (simp add: lookahead_step_def getitem_def Let_def known_prefix_def startswith_any_def)
qed

lemma number_dot_step:
  "j < length lines \<Longrightarrow> strip (lines ! j) \<noteq> [] \<Longrightarrow> match_number_dot (strip (lines ! j))
     \<Longrightarrow> lookahead_step lines i j md nl = Inr Break"
  by (simp add: lookahead_step_def getitem_def)

lemma blank_step_general:
  "j < length lines \<Longrightarrow> strip (lines ! j) = []
     \<Longrightarrow> lookahead_step lines i j md nl
         = (if j + 1 < length lines \<and> match_number_dot (strip (lines ! (j + 1)))
            then Inr Break else Inr (Continue md nl))"
  by (simp add: lookahead_step_def getitem_def)

lemma step_same:
  assumes len: "length L = length L'" and j: "j < length L" and here: "L ! j = L' ! j"
    and after: "j + 1 < length L \<longrightarrow>
        match_number_dot (strip (L ! (j + 1))) = match_number_dot (strip (L' ! (j + 1)))"
    and before: "L ! (j - 1) = L' ! (j - 1) \<or> \<not> continuation_line (strip (L ! j))
        \<or> nl \<noteq> [] \<or> j \<le> i + 1"
  shows "lookahead_step L i j md nl = lookahead_step L' i j md nl"
proof -
  let ?s = "strip (L ! j)"
  from len j have j': "j < length L'" by simp
  consider (blank) "?s = []" | (stop) "?s \<noteq> []" "match_number_dot ?s"
    | (field) "known_prefix ?s"
    | (cont) "?s \<noteq> []" "\<not> match_number_dot ?s" "\<not> known_prefix ?s"
    by blast
  then show ?thesis
  proof cases
    case blank
    with j j' here after len show ?thesis by (auto simp: blank_step_general)
  next
    case stop
    with j j' here show ?thesis by (simp add: number_dot_step)
  next
    case field
    with j j' here show ?thesis by (simp add: field_step)
  next
    case cont
    then have "continuation_line ?s" by (simp add: continuation_line_def)
    with before have "(nl \<noteq> [] \<or> (i + 1 < j \<and> contains ''Notes:'' (L ! (j - 1))))
        = (nl \<noteq> [] \<or> (i + 1 < j \<and> contains ''Notes:'' (L' ! (j - 1))))"
      by auto
    moreover have "lookahead_step L i j md nl
         = Inr (Continue md
             (if nl \<noteq> [] \<or> (i + 1 < j \<and> contains ''Notes:'' (L ! (j - 1)))
              then nl @ [strip (L ! j)] else nl))"
      using j cont by (rule continuation_step)
    moreover have "lookahead_step L' i j md nl
         = Inr (Continue md
             (if nl \<noteq> [] \<or> (i + 1 < j \<and> contains ''Notes:'' (L' ! (j - 1)))
              then nl @ [strip (L' ! j)] else nl))"
      using j' cont unfolding here by (rule continuation_step)
    ultimately show ?thesis using here by simp
  qed
qed

lemma lookahead_same_after:
  assumes len: "length L = length L'"
    and agree: "\<forall>p. k \<le> p \<and> p < length L \<longrightarrow> L ! p = L' ! p"
    and "k \<le> j"
    and "k < j \<or> length L \<le> j \<or> \<not> continuation_line (strip (L ! j)) \<or> nl \<noteq> [] \<or> j \<le> i + 1"
  shows "lookahead L i j md nl = lookahead L' i j md nl"
  using assms(3,4)
proof (induction "length L - j" arbitrary: j md nl rule: less_induct)
  case less
  show ?case
  proof (cases "j < length L")
    case False
    with len show ?thesis by (simp add: lookahead_end)
  next
    case True
    with len have j': "j < length L'" by simp
    from True less.prems(1) agree have here: "L ! j = L' ! j" by simp
    have after: "j + 1 < length L \<longrightarrow>
        match_number_dot (strip (L ! (j + 1))) = match_number_dot (strip (L' ! (j + 1)))"
      using less.prems(1) agree by simp
    have before: "L ! (j - 1) = L' ! (j - 1) \<or> \<not> continuation_line (strip (L ! j))
        \<or> nl \<noteq> [] \<or> j \<le> i + 1"
    proof (cases "k < j")
      case True
      with \<open>j < length L\<close> have "k \<le> j - 1 \<and> j - 1 < length L" by arith
      with agree have "L ! (j - 1) = L' ! (j - 1)" by blast
      then show ?thesis by simp
    next
      case False
      with less.prems(2) \<open>j < length L\<close> show ?thesis by simp
    qed
    have same: "lookahead_step L i j md nl = lookahead_step L' i j md nl"
      using len True here after before by (rule step_same)
    obtain out where out: "lookahead_step L i j md nl = Inr out"
      using True lookahead_step_returns by blast
    show ?thesis
    proof (cases out)
      case Break
      with True j' out same show ?thesis by (simp add: lookahead_break)
    next
      case (Continue md1 nl1)
      from True have smaller: "length L - Suc j < length L - j" by simp
      from less.prems(1) have "k \<le> Suc j" "k < Suc j \<or> length L \<le> Suc j
          \<or> \<not> continuation_line (strip (L ! Suc j)) \<or> nl1 \<noteq> [] \<or> Suc j \<le> i + 1"
        by simp_all
      from less.hyps[OF smaller this]
      have "lookahead L i (Suc j) md1 nl1 = lookahead L' i (Suc j) md1 nl1" .
      with True j' out same Continue show ?thesis by (simp add: lookahead_continue)
    qed
  qed
qed

lemma scan_same_after:
  assumes len: "length L = length L'"
    and agree: "\<forall>p. k \<le> p \<and> p < length L \<longrightarrow> L ! p = L' ! p"
    and "k \<le> i"
  shows "scan L i acc = scan L' i acc"
  using assms(3)
proof (induction "length L - i" arbitrary: i acc rule: less_induct)
  case less
  show ?case
  proof (cases "i < length L")
    case False
    with len show ?thesis by (simp add: scan_end)
  next
    case True
    with len have i': "i < length L'" by simp
    from True less.prems agree have here: "L ! i = L' ! i" by simp
    from True have smaller: "length L - Suc i < length L - i" by simp
    from less.prems have k: "k \<le> Suc i" by simp
    show ?thesis
    proof (cases "skip_line (strip (L ! i))")
      case skip: True
      with True i' here less.hyps[OF smaller k] show ?thesis by (simp add: scan_skip)
    next
      case noskip: False
      show ?thesis
      proof (cases "match_series (strip (L ! i))")
        case None
        with True i' here noskip less.hyps[OF smaller k] show ?thesis by (simp add: scan_stray)
      next
        case (Some g)
        obtain g1 g2 where g: "g = (g1, g2)" by (cases g)
        obtain j md nl where la: "lookahead L i (Suc i) empty_metadata [] = Inr (j, md, nl)"
          using lookahead_returns by blast
        have "lookahead L i (Suc i) empty_metadata [] = lookahead L' i (Suc i) empty_metadata []"
          using len agree k by (rule lookahead_same_after) simp
        with la have la': "lookahead L' i (Suc i) empty_metadata [] = Inr (j, md, nl)" by simp
        from la have "Suc i \<le> j" by (rule lookahead_index_grows)
        with True less.prems have "length L - j < length L - i" "k \<le> j" by simp_all
        from less.hyps[OF this]
        have "scan L j (acc @ [make_record (strip g1) (strip g2) (join_notes md nl)])
            = scan L' j (acc @ [make_record (strip g1) (strip g2) (join_notes md nl)])" .
        moreover from True noskip Some g la
        have "scan L i acc = scan L j (acc @ [make_record (strip g1) (strip g2) (join_notes md nl)])"
          by (simp add: scan_record)
        moreover from i' noskip Some g la' here
        have "scan L' i acc = scan L' j (acc @ [make_record (strip g1) (strip g2) (join_notes md nl)])"
          by (simp add: scan_record)
        ultimately show ?thesis by simp
      qed
    qed
  qed
qed

lemma apply_field_keeps_notes: "snd st \<noteq> [] \<Longrightarrow> snd (apply_field l st) \<noteq> []"
  using which_prefix_range[of "strip l"]
  by (auto simp: apply_field_def which_prefix_effect split: if_splits)

lemma fold_keeps_notes: "snd st \<noteq> [] \<Longrightarrow> snd (fold apply_field run st) \<noteq> []"
  by (induction run arbitrary: st) (simp_all add: apply_field_keeps_notes)

lemma fold_kept_notes:
  "list_ex (\<lambda>l. kept_notes_line (strip l)) run \<Longrightarrow> snd (fold apply_field run st) \<noteq> []"
proof (induction run arbitrary: st)
  case Nil
  then show ?case by simp
next
  case (Cons l run)
  show ?case
  proof (cases "kept_notes_line (strip l)")
    case True
    then have "snd (apply_field l st) \<noteq> []"
      by (simp add: kept_notes_line_def apply_field_def which_prefix_effect)
    then show ?thesis by (simp add: fold_keeps_notes)
  next
    case False
    with Cons show ?thesis by simp
  qed
qed

lemma lookahead_same_before:
  assumes len: "length L = length L'"
    and agree: "\<forall>p<n. L ! p = L' ! p"
    and at_n_stop: "n < length L \<longrightarrow>
        match_number_dot (strip (L ! n)) = match_number_dot (strip (L' ! n))"
    and at_n: "\<forall>md nl. lookahead L i n md nl = lookahead L' i n md nl"
    and "j \<le> n"
  shows "lookahead L i j md nl = lookahead L' i j md nl"
  using assms(5)
proof (induction "n - j" arbitrary: j md nl)
  case 0
  then have "j = n" by simp
  with at_n show ?case by simp
next
  case (Suc d)
  then have jn: "j < n" by simp
  show ?case
  proof (cases "j < length L")
    case False
    with len show ?thesis by (simp add: lookahead_end)
  next
    case True
    with len have j': "j < length L'" by simp
    from jn agree have here: "L ! j = L' ! j" by simp
    have after: "j + 1 < length L \<longrightarrow>
        match_number_dot (strip (L ! (j + 1))) = match_number_dot (strip (L' ! (j + 1)))"
    proof (cases "j + 1 = n")
      case True
      with at_n_stop show ?thesis by simp
    next
      case False
      with jn have "j + 1 < n" by simp
      with agree show ?thesis by simp
    qed
    from jn have "j - 1 < n" by simp
    with agree have "L ! (j - 1) = L' ! (j - 1)" by blast
    then have before: "L ! (j - 1) = L' ! (j - 1) \<or> \<not> continuation_line (strip (L ! j))
        \<or> nl \<noteq> [] \<or> j \<le> i + 1" by simp
    have same: "lookahead_step L i j md nl = lookahead_step L' i j md nl"
      using len True here after before by (rule step_same)
    obtain out where out: "lookahead_step L i j md nl = Inr out"
      using True lookahead_step_returns by blast
    show ?thesis
    proof (cases out)
      case Break
      with True j' out same show ?thesis by (simp add: lookahead_break)
    next
      case (Continue md1 nl1)
      from Suc.hyps(2) jn have "d = n - Suc j" "Suc j \<le> n" by simp_all
      from Suc.hyps(1)[OF this]
      have "lookahead L i (Suc j) md1 nl1 = lookahead L' i (Suc j) md1 nl1" .
      with True j' out same Continue show ?thesis by (simp add: lookahead_continue)
    qed
  qed
qed

lemma lookahead_same_at_run:
  assumes perm: "mset run' = mset run"
    and fields: "\<forall>l\<in>set run. known_prefix (strip l)"
    and once: "distinct (map (\<lambda>l. which_prefix (strip l)) run)"
    and closed: "run_closed run rest"
  shows "lookahead (A @ run' @ rest) i (length A) md nl
         = lookahead (A @ run @ rest) i (length A) md nl"
proof -
  let ?L = "A @ run @ rest" and ?L' = "A @ run' @ rest"
  let ?st = "fold apply_field run (md, nl)"
  let ?k = "length A + length run"
  from perm have len_run: "length run' = length run" by (metis size_mset)
  from perm fields have fields': "\<forall>l\<in>set run'. known_prefix (strip l)"
    by (metis set_mset_mset)
  have st': "fold apply_field run' (md, nl) = ?st"
    using perm once by (rule fold_fields_permuted)
  have "lookahead ?L' i (length A) md nl = lookahead ?L' i ?k (fst ?st) (snd ?st)"
    using lookahead_over_run[OF fields', of A rest i md nl] st' len_run by simp
  also have "\<dots> = lookahead ?L i ?k (fst ?st) (snd ?st)"
  proof (rule lookahead_same_after[where k = ?k])
    show "length ?L' = length ?L" using len_run by simp
    show "\<forall>p. ?k \<le> p \<and> p < length ?L' \<longrightarrow> ?L' ! p = ?L ! p"
      using len_run by (auto simp: nth_append)
    show "?k \<le> ?k" by simp
    show "?k < ?k \<or> length ?L' \<le> ?k \<or> \<not> continuation_line (strip (?L' ! ?k))
        \<or> snd ?st \<noteq> [] \<or> ?k \<le> i + 1"
    proof (cases "list_ex (\<lambda>l. kept_notes_line (strip l)) run")
      case True
      then have "snd ?st \<noteq> []" by (rule fold_kept_notes)
      then show ?thesis by simp
    next
      case False
      with closed have tail: "case rest of [] \<Rightarrow> True | l # _ \<Rightarrow> \<not> continuation_line (strip l)"
        by (simp add: run_closed_def)
      show ?thesis
      proof (cases rest)
        case Nil
        then show ?thesis using len_run by simp
      next
        case (Cons l rest')
        with tail have "\<not> continuation_line (strip l)" by simp
        moreover have "?L' ! ?k = l" using Cons len_run by (simp add: nth_append)
        ultimately show ?thesis by simp
      qed
    qed
  qed
  also have "\<dots> = lookahead ?L i (length A) md nl"
    using lookahead_over_run[OF fields, of A rest i md nl] by simp
  finally show ?thesis .
qed

lemma field_line_stray:
  assumes "known_prefix s"
  shows "\<not> skip_line s" and "match_series s = None" and "\<not> match_number_dot s"
proof -
  from assms have ne: "s \<noteq> []" and hd: "hd s \<in> {CHR ''U'', CHR ''F'', CHR ''L'', CHR ''N''}"
    using known_prefix_head by blast+
  from assms show "\<not> skip_line s"
    by (auto simp: known_prefix_def skip_line_def startswith_any_def startswith_def prefix_def)
  from hd have "\<not> is_digit (hd s)" by (auto simp: is_digit_def)
  with ne show "match_series s = None" by (rule no_digit_no_match)
  from assms show "\<not> match_number_dot s" by (rule known_prefix_no_number)
qed

lemma scan_same_run:
  assumes perm: "mset run' = mset run"
    and fields: "\<forall>l\<in>set run. known_prefix (strip l)"
    and once: "distinct (map (\<lambda>l. which_prefix (strip l)) run)"
    and closed: "run_closed run rest"
  shows "scan (A @ run' @ rest) i acc = scan (A @ run @ rest) i acc"
proof -
  let ?L = "A @ run @ rest" and ?L' = "A @ run' @ rest"
  let ?n = "length A" and ?m = "length run"
  from perm have len_run: "length run' = length run" by (metis size_mset)
  then have len: "length ?L' = length ?L" by simp
  from perm fields have fields': "\<forall>l\<in>set run'. known_prefix (strip l)"
    by (metis set_mset_mset)
  have in_run: "known_prefix (strip (?L ! p)) \<and> known_prefix (strip (?L' ! p))"
    if "?n \<le> p" "p < ?n + ?m" for p
  proof -
    from that have "?L ! p = run ! (p - ?n)" "?L' ! p = run' ! (p - ?n)" "p - ?n < ?m"
      using len_run by (auto simp: nth_append)
    with fields fields' len_run show ?thesis by simp
  qed
  have before: "\<forall>p<?n. ?L' ! p = ?L ! p" by (simp add: nth_append)
  have after: "\<forall>p. ?n + ?m \<le> p \<and> p < length ?L' \<longrightarrow> ?L' ! p = ?L ! p"
    using len_run by (auto simp: nth_append)
  have at_n_stop: "?n < length ?L' \<longrightarrow>
      match_number_dot (strip (?L' ! ?n)) = match_number_dot (strip (?L ! ?n))"
  proof (cases "run = []")
    case True
    with perm have "run' = []" by simp
    with True show ?thesis by simp
  next
    case False
    then have "?n \<le> ?n" "?n < ?n + ?m" by simp_all
    from in_run[OF this] show ?thesis by (simp add: field_line_stray(3))
  qed
  show ?thesis
  proof (induction "length ?L - i" arbitrary: i acc rule: less_induct)
    case less
    consider (past) "length ?L \<le> i" | (tail) "?n + ?m \<le> i" "i < length ?L"
      | (inside) "?n \<le> i" "i < ?n + ?m" | (head) "i < ?n"
      by linarith
    then show ?case
    proof cases
      case past
      with len show ?thesis by (simp add: scan_end)
    next
      case tail
      from len after tail(1) show ?thesis by (rule scan_same_after)
    next
      case inside
      then have i: "i < length ?L" "i < length ?L'" using len_run by simp_all
      then have smaller: "length ?L - Suc i < length ?L - i" by simp
      from in_run[OF inside] have "known_prefix (strip (?L ! i))" "known_prefix (strip (?L' ! i))"
        by simp_all
      then have "scan ?L i acc = scan ?L (Suc i) acc" "scan ?L' i acc = scan ?L' (Suc i) acc"
        using i by (simp_all add: scan_stray field_line_stray)
      with less.hyps[OF smaller] show ?thesis by simp
    next
      case head
      then have i: "i < length ?L" "i < length ?L'" by simp_all
      then have smaller: "length ?L - Suc i < length ?L - i" by simp
      from head have here: "?L' ! i = ?L ! i" by (simp add: nth_append)
      show ?thesis
      proof (cases "skip_line (strip (?L ! i))")
        case skip: True
        with i here less.hyps[OF smaller] show ?thesis by (simp add: scan_skip)
      next
        case noskip: False
        show ?thesis
        proof (cases "match_series (strip (?L ! i))")
          case None
          with i here noskip less.hyps[OF smaller] show ?thesis by (simp add: scan_stray)
        next
          case (Some g)
          obtain g1 g2 where g: "g = (g1, g2)" by (cases g)
          obtain j md nl where la: "lookahead ?L i (Suc i) empty_metadata [] = Inr (j, md, nl)"
            using lookahead_returns by blast
          have "lookahead ?L' i (Suc i) empty_metadata [] = lookahead ?L i (Suc i) empty_metadata []"
          proof (rule lookahead_same_before[where n = ?n])
            show "length ?L' = length ?L" by fact
            show "\<forall>p<?n. ?L' ! p = ?L ! p" by fact
            show "?n < length ?L' \<longrightarrow>
                match_number_dot (strip (?L' ! ?n)) = match_number_dot (strip (?L ! ?n))" by fact
            show "\<forall>md nl. lookahead ?L' i ?n md nl = lookahead ?L i ?n md nl"
              using lookahead_same_at_run[OF perm fields once closed] by blast
            show "Suc i \<le> ?n" using head by simp
          qed
          with la have la': "lookahead ?L' i (Suc i) empty_metadata [] = Inr (j, md, nl)" by simp
          from la have "Suc i \<le> j" by (rule lookahead_index_grows)
          with i have "length ?L - j < length ?L - i" by simp
          from less.hyps[OF this]
          have "scan ?L' j (acc @ [make_record (strip g1) (strip g2) (join_notes md nl)])
              = scan ?L j (acc @ [make_record (strip g1) (strip g2) (join_notes md nl)])" .
          moreover from i noskip Some g la
          have "scan ?L i acc
              = scan ?L j (acc @ [make_record (strip g1) (strip g2) (join_notes md nl)])"
            by (simp add: scan_record)
          moreover from i noskip Some g la' here
          have "scan ?L' i acc
              = scan ?L' j (acc @ [make_record (strip g1) (strip g2) (join_notes md nl)])"
            by (simp add: scan_record)
          ultimately show ?thesis by simp
        qed
      qed
    qed
  qed
qed

lemma dropWhile_snoc_keep: "\<not> P c \<Longrightarrow> dropWhile P (xs @ [c]) = dropWhile P xs @ [c]"
  by (induction xs) simp_all

lemma strip_keeps_head: "s \<noteq> [] \<Longrightarrow> \<not> is_space (hd s) \<Longrightarrow> strip s \<noteq> [] \<and> hd (strip s) = hd s"
proof -
  assume "s \<noteq> []" and sp: "\<not> is_space (hd s)"
  then obtain c cs where s: "s = c # cs" by (cases s) auto
  with sp have "strip s = rev (dropWhile is_space (rev cs) @ [c])"
    by (simp add: strip_def dropWhile_snoc_keep)
  then show ?thesis by (simp add: s)
qed

lemma field_line_no_query: "known_prefix (strip l) \<Longrightarrow> \<not> startswith l ''Query: ''"
proof
  assume kp: "known_prefix (strip l)" and q: "startswith l ''Query: ''"
  from q obtain r where l: "l = CHR ''Q'' # r" by (auto simp: startswith_def prefix_def)
  then have "\<not> is_space (hd l)" by (simp add: is_space_def)
  with l have "hd (strip l) = CHR ''Q''" using strip_keeps_head[of l] by simp
  with known_prefix_head[OF kp] show False by simp
qed

lemma query_loop_same:
  "list_all2 (\<lambda>a b. a = b \<or> (\<not> startswith a ''Query: '' \<and> \<not> startswith b ''Query: '')) xs ys
     \<Longrightarrow> query_loop q xs = query_loop q ys"
  by (induction xs ys rule: list_all2_induct) auto

section \<open>The claims\<close>

subsection \<open>C1: where the metadata lookahead stops\<close>

text \<open>
  C1, as amended. The claim has the lookahead stop only at a line that matches the whole
  record-start pattern. The code tests less: the inner loop that starts at \<open>j\<close> returns
  the first index from \<open>j\<close> on at which the stripped line begins with digits and a dot
  (\<^verbatim>\<open>\d+\.\<close>), or is empty and followed by such a line, and the number of lines if
  there is no such index. The line at the returned index is not consumed, and no other
  line ends the loop.
\<close>

theorem lookahead_stops_at_number_dot:
  assumes "lookahead lines i j md nl = Inr (j', md', nl')" and "j \<le> length lines"
  shows "j \<le> j' \<and> j' \<le> length lines \<and> (j' < length lines \<longrightarrow> stops_at lines j')
           \<and> (\<forall>k. j \<le> k \<and> k < j' \<longrightarrow> \<not> stops_at lines k)"
  using assms by (rule lookahead_stop_index)

theorem lookahead_stops_at_number_dot_witness:
  "stops_at [''1. A - t'', ''Notes: x'', [], ''2. B - u''] 2
   \<and> \<not> stops_at [''1. A - t'', ''Notes: x'', [], ''2. B - u''] 1"
proof -
  have run: "lookahead [''1. A - t'', ''Notes: x'', [], ''2. B - u''] 0 1 empty_metadata []
      = Inr (2, empty_metadata, [''x''])"
    by code_simp
  have "(1::nat) \<le> length [''1. A - t'', ''Notes: x'', [], ''2. B - u'']" by simp
  from lookahead_stops_at_number_dot[OF run this] show ?thesis by simp
qed

text \<open>
  The claim as stated fails: the line \<^verbatim>\<open>2.5 percent growth\<close> is not blank and does
  not match the record-start pattern, and the lookahead of the record before it stops
  there, at index 2, leaving the \<^verbatim>\<open>Units\<close> line behind it unread.
\<close>

theorem lookahead_stop_counterexample:
  "strip (''2.5 percent growth'') \<noteq> []
   \<and> match_series (strip ''2.5 percent growth'') = None
   \<and> lookahead [''1. A - t'', ''Notes: x'', ''2.5 percent growth'', ''Units: u''] 0 1 empty_metadata []
       = Inr (2, empty_metadata, [''x''])"
  by code_simp

subsection \<open>C2: which lines produce a record\<close>

text \<open>
  C2, as amended. The records are produced by the lines whose stripped text matches the
  pattern of the code, \<^verbatim>\<open>\d+\. ([A-Z0-9]+) - (.+)\<close>: one or more digits (zero
  included), a dot, exactly one space, the identifier, exactly one space, a dash, exactly
  one space, and at least one more character. Each such line produces one record, no
  other line produces any, the order is that of the lines, and the record has the first
  group as \<^verbatim>\<open>series_id\<close> and the second group, stripped, as \<^verbatim>\<open>title\<close>.
\<close>

theorem records_from_start_lines:
  "\<exists>r. parse_lines stem lines = Inr r
       \<and> map record_key (results r) = List.map_filter start_fields lines"
  by (rule parse_lines_emits)

theorem records_from_start_lines_witness:
  "\<exists>r. parse_lines ''gdp'' [''1. GDP -  Gross product'', ''2.  GDPC1 - Real'', ''0. A1 - b''] = Inr r
       \<and> map record_key (results r) = [(''GDP'', ''Gross product''), (''A1'', ''b'')]"
proof -
  have "List.map_filter start_fields [''1. GDP -  Gross product'', ''2.  GDPC1 - Real'', ''0. A1 - b'']
      = [(''GDP'', ''Gross product''), (''A1'', ''b'')]"
    by code_simp
  with records_from_start_lines[of "''gdp''"
      "[''1. GDP -  Gross product'', ''2.  GDPC1 - Real'', ''0. A1 - b'']"]
  show ?thesis by simp
qed

text \<open>
  The claim as stated fails: with two spaces after the dot the line matches the pattern
  of the specification, and no record is produced for it.
\<close>

theorem record_start_counterexample:
  "spec_record_start (strip ''1.  ABC - T'')
   \<and> parse_lines ''gdp'' [''1.  ABC - T'']
       = Inr \<lparr>query = ''gdp'', result_count = Some 0, results = []\<rparr>"
  by code_simp

subsection \<open>C5: the parser always returns\<close>

text \<open>
  C5. For every text and every sequence of lines, and every fallback label, the parser
  returns a result: no index is out of range and both loops end. It never returns more
  records than there are lines, and when no line matches the record-start pattern the
  list of records is empty.
\<close>

theorem parser_total:
  "(\<exists>r. parse_search_result_file stem content = Inr r)
   \<and> (\<exists>r. parse_lines stem lines = Inr r
          \<and> length (results r) \<le> length lines
          \<and> ((\<forall>l\<in>set lines. match_series (strip l) = None) \<longrightarrow> results r = []))"
proof -
  obtain r where r: "parse_lines stem lines = Inr r"
    and keys: "map record_key (results r) = List.map_filter start_fields lines"
    using parse_lines_emits by blast
  have "length (results r) = length (List.map_filter start_fields lines)"
    using keys by (metis length_map)
  then have len: "length (results r) \<le> length lines"
    by (simp add: length_map_filter_le)
  have "results r = []" if "\<forall>l\<in>set lines. match_series (strip l) = None"
  proof -
    from that have "List.map_filter start_fields lines = []"
      by (intro map_filter_all_None) (simp add: start_fields_def)
    with keys show ?thesis by simp
  qed
  moreover obtain r' where "parse_lines stem (split_nl (strip content)) = Inr r'"
    using parse_lines_emits by blast
  ultimately show ?thesis using r len by (auto simp: parse_search_result_file_def)
qed

theorem parser_total_witness:
  "list_all (\<lambda>l. match_series (strip l) = None)
     [''FRED Series Search Results'', ''Query: foo'', ''12. no dash here'']
   \<and> (\<exists>r. parse_lines ''gdp'' [''FRED Series Search Results'', ''Query: foo'', ''12. no dash here'']
             = Inr r \<and> results r = [])"
proof -
  have none: "list_all (\<lambda>l. match_series (strip l) = None)
      [''FRED Series Search Results'', ''Query: foo'', ''12. no dash here'']"
    by code_simp
  then have "\<forall>l\<in>set [''FRED Series Search Results'', ''Query: foo'', ''12. no dash here''].
      match_series (strip l) = None"
    by (simp only: list_all_iff)
  with parser_total[of "''gdp''" "[]"
      "[''FRED Series Search Results'', ''Query: foo'', ''12. no dash here'']"] none
  show ?thesis by blast
qed

subsection \<open>C9: the result count\<close>

text \<open>
  C9. The list of lines is never empty, so the early return, which has no
  \<^verbatim>\<open>result_count\<close>, is never taken: for every text the returned dictionary has a
  \<^verbatim>\<open>result_count\<close>, and it is the length of \<^verbatim>\<open>results\<close>.
\<close>

theorem result_count_is_length:
  "split_nl (strip content) \<noteq> []
   \<and> (\<exists>r. parse_search_result_file stem content = Inr r
          \<and> result_count r = Some (length (results r)))"
proof -
  have ne: "split_nl (strip content) \<noteq> []" by (rule split_nl_not_Nil)
  obtain rs where "scan (split_nl (strip content)) 0 [] = Inr rs"
    using scan_returns by blast
  with ne show ?thesis
    by (simp add: parse_search_result_file_def parse_lines_scan)
qed

theorem result_count_is_length_witness:
  "\<exists>r. parse_search_result_file ''gdp'' [] = Inr r \<and> result_count r = Some 0 \<and> results r = []"
proof -
  have "parse_search_result_file ''gdp'' []
      = Inr \<lparr>query = ''gdp'', result_count = Some 0, results = []\<rparr>"
    by code_simp
  with result_count_is_length[of "[]" "''gdp''"] show ?thesis by simp
qed

subsection \<open>C3: continuation lines\<close>

text \<open>
  C3, as amended. In the inner loop at index \<open>j\<close> of the record that starts at \<open>i\<close>, a
  line that is not blank, does not stop the loop and has none of the four prefixes is
  appended (stripped) to the notes if and only if the notes collected so far are not
  empty, or \<open>j > i + 1\<close> and the raw line at \<open>j - 1\<close> contains \<^verbatim>\<open>Notes:\<close>. The
  position of \<open>j\<close> is a further condition: the record-start line itself is never looked
  at. Either way the loop goes on to \<open>j + 1\<close> with the metadata unchanged.
\<close>

theorem continuation_absorbed:
  assumes "j < length lines" and "strip (lines ! j) \<noteq> []"
    and "\<not> match_number_dot (strip (lines ! j))" and "\<not> known_prefix (strip (lines ! j))"
  shows "lookahead_step lines i j md nl
         = Inr (Continue md
             (if nl \<noteq> [] \<or> (i + 1 < j \<and> contains ''Notes:'' (lines ! (j - 1)))
              then nl @ [strip (lines ! j)] else nl))"
  using assms by (rule continuation_step)

theorem continuation_absorbed_witness:
  "lookahead_step [''1. A - t'', ''Notes: No description available'', ''more text''] 0 2
       empty_metadata []
     = Inr (Continue empty_metadata [''more text''])"
proof -
  let ?L = "[''1. A - t'', ''Notes: No description available'', ''more text'']"
  have a: "2 < length ?L" by simp
  have b: "strip (?L ! 2) \<noteq> []" by code_simp
  have c: "\<not> match_number_dot (strip (?L ! 2))" by code_simp
  have d: "\<not> known_prefix (strip (?L ! 2))" by code_simp
  have e: "contains ''Notes:'' (?L ! (2 - 1))" by code_simp
  have f: "strip (?L ! 2) = ''more text''" by code_simp
  from continuation_absorbed[OF a b c d, of 0 empty_metadata "[]"] e f
  show ?thesis by simp
qed

text \<open>
  The claim as stated fails: the title of the record \<^verbatim>\<open>1. ABC - Notes: x\<close> contains
  \<^verbatim>\<open>Notes:\<close>, so the raw line before index 1 does, and the notes are empty; the
  disjunction of the claim holds, yet the continuation line at index 1 is not appended.
\<close>

theorem continuation_counterexample:
  "contains ''Notes:'' ([''1. ABC - Notes: x'', ''stray''] ! (1 - 1))
   \<and> strip ([''1. ABC - Notes: x'', ''stray''] ! 1) \<noteq> []
   \<and> \<not> match_number_dot (strip ([''1. ABC - Notes: x'', ''stray''] ! 1))
   \<and> \<not> known_prefix (strip ([''1. ABC - Notes: x'', ''stray''] ! 1))
   \<and> lookahead_step [''1. ABC - Notes: x'', ''stray''] 0 1 empty_metadata []
       = Inr (Continue empty_metadata [])"
  by code_simp

subsection \<open>C4: the query label\<close>

text \<open>
  C4. The claim takes the label to be the text after the prefix \<^verbatim>\<open>Query: \<close>, later
  occurrences of \<^verbatim>\<open>Query: \<close> preserved. The code removes the prefix with
  \<^verbatim>\<open>replace\<close>, which removes every occurrence: the text \<^verbatim>\<open>Query: a Query: b\<close>
  gets the label \<^verbatim>\<open>a b\<close>, not \<^verbatim>\<open>a Query: b\<close>.
\<close>

theorem query_replaces_every_occurrence:
  "parse_search_result_file ''gdp'' ''Query: a Query: b''
     = Inr \<lparr>query = ''a b'', result_count = Some 0, results = []\<rparr>"
  by code_simp

subsection \<open>C6: the two copies of the parser\<close>

lemma md_query_loop_eq: "md_query_loop q ls = query_loop q ls"
  by (induction ls) simp_all

lemma md_lookahead_step_eq: "md_lookahead_step lines i j md nl = lookahead_step lines i j md nl"
  by (simp only: md_lookahead_step_def lookahead_step_def)

lemma md_lookahead_eq: "md_lookahead lines i j md nl = lookahead lines i j md nl"
proof (induction lines i j md nl rule: lookahead.induct)
  case (1 lines i j md nl)
  show ?case
  proof (cases "j < length lines")
    case False
    then show ?thesis
      by (simp add: lookahead.simps[of lines i j] md_lookahead.simps[of lines i j])
  next
    case True
    show ?thesis
    proof (cases "lookahead_step lines i j md nl")
      case (Inl e)
      with True show ?thesis
        by (simp add: lookahead.simps[of lines i j] md_lookahead.simps[of lines i j]
            md_lookahead_step_eq)
    next
      case (Inr out)
      show ?thesis
      proof (cases out)
        case Break
        with True Inr show ?thesis
          by (simp add: lookahead.simps[of lines i j] md_lookahead.simps[of lines i j]
              md_lookahead_step_eq)
      next
        case (Continue md1 nl1)
        with True Inr "1.IH"[OF True Inr Continue] show ?thesis
          by (simp add: lookahead.simps[of lines i j md nl] md_lookahead.simps[of lines i j md nl]
              md_lookahead_step_eq)
      qed
    qed
  qed
qed

lemma md_scan_eq: "md_scan lines i acc = scan lines i acc"
proof (induction "length lines - i" arbitrary: i acc rule: less_induct)
  case less
  show ?case
  proof (cases "i < length lines")
    case False
    then show ?thesis by (simp add: scan.simps[of lines i] md_scan.simps[of lines i])
  next
    case True
    then have smaller: "length lines - Suc i < length lines - i" by simp
    note unfold = scan.simps[of lines i acc] md_scan.simps[of lines i acc]
    have skip_eq: "md_skip_line (strip (lines ! i)) = skip_line (strip (lines ! i))"
      by (simp only: md_skip_line_def skip_line_def)
    show ?thesis
    proof (cases "skip_line (strip (lines ! i))")
      case skip: True
      with True skip_eq less[OF smaller] show ?thesis
        by (simp add: unfold getitem_def)
    next
      case noskip: False
      show ?thesis
      proof (cases "match_series (strip (lines ! i))")
        case None
        with True noskip skip_eq less[OF smaller] show ?thesis
          by (simp add: unfold getitem_def)
      next
        case (Some g)
        obtain g1 g2 where g: "g = (g1, g2)" by (cases g)
        obtain j md nl where la: "lookahead lines i (Suc i) empty_metadata [] = Inr (j, md, nl)"
          using lookahead_returns by blast
        then have "Suc i \<le> j" by (rule lookahead_index_grows)
        with True have "length lines - j < length lines - i" by simp
        from less[OF this] True noskip skip_eq Some g la show ?thesis
          by (simp add: unfold getitem_def md_lookahead_eq md_join_notes_def join_notes_def)
      qed
    qed
  qed
qed

text \<open>
  C6. The parser of the Markdown converter and the parser of the JSON converter return
  the same value on every text: the same query, the same result count and the same list
  of records, in the same order. The same holds from any list of lines on.
\<close>

theorem parsers_agree:
  "md_parse_search_result_file stem content = parse_search_result_file stem content
   \<and> md_parse_lines stem lines = parse_lines stem lines"
  by (simp add: md_parse_search_result_file_def parse_search_result_file_def
      md_parse_lines_def parse_lines_def md_scan_eq md_query_loop_eq)

theorem parsers_agree_witness:
  "md_parse_search_result_file ''gdp'' ''Query: q''
     = Inr \<lparr>query = ''q'', result_count = Some 0, results = []\<rparr>"
proof -
  have "parse_search_result_file ''gdp'' ''Query: q''
      = Inr \<lparr>query = ''q'', result_count = Some 0, results = []\<rparr>"
    by code_simp
  with parsers_agree[of "''gdp''" "''Query: q''" "[]"] show ?thesis by simp
qed

subsection \<open>C7: the sentinel of the notes\<close>



subsection \<open>C10: stored values have no whitespace at their ends\<close>

text \<open>
  C10. In every record that the parser returns, none of the six fields begins or ends
  with whitespace, and the notes are the single-space join of stripped lines, stripped
  again. The statement is about any list of lines; the lines of a text are an instance.
\<close>

theorem fields_trimmed:
  assumes "parse_lines stem lines = Inr res" and "r \<in> set (results res)"
  shows "trimmed (series_id r) \<and> trimmed (title r) \<and> trimmed (frequency r)
      \<and> trimmed (units r) \<and> trimmed (last_updated r) \<and> trimmed (notes_field r)
      \<and> (\<exists>nl. list_all trimmed nl \<and> notes_field r = strip (join '' '' nl))"
proof (cases "lines = []")
  case True
  with assms(1) have "results res = []" by (auto simp: parse_lines_def)
  with assms(2) show ?thesis by simp
next
  case False
  obtain rs where rs: "scan lines 0 [] = Inr rs" using scan_returns by blast
  with False assms(1) have "results res = rs" by (auto simp: parse_lines_scan)
  moreover from rs have "list_all record_trimmed rs" by (rule scan_trimmed) simp
  ultimately have "record_trimmed r" using assms(2) by (simp add: list_all_iff)
  then show ?thesis by (simp add: record_trimmed_def)
qed

theorem fields_trimmed_witness:
  "\<exists>res r. parse_lines ''gdp'' [''1. ABC -  First'', ''   Notes:  hello  '', ''  world  ''] = Inr res
     \<and> results res = [r]
     \<and> title r = ''First'' \<and> notes_field r = ''hello world''
     \<and> trimmed (title r) \<and> trimmed (notes_field r)"
proof -
  let ?L = "[''1. ABC -  First'', ''   Notes:  hello  '', ''  world  '']"
  let ?r = "\<lparr>frequency = [], units = [], last_updated = [], notes_field = ''hello world'',
      series_id = ''ABC'', title = ''First''\<rparr>"
  let ?res = "\<lparr>query = ''gdp'', result_count = Some 1, results = [?r]\<rparr>"
  have run: "parse_lines ''gdp'' ?L = Inr ?res" by code_simp
  have mem: "?r \<in> set (results ?res)" by simp
  from fields_trimmed[OF run mem] have "trimmed (title ?r) \<and> trimmed (notes_field ?r)" by simp
  with run show ?thesis by simp
qed

subsection \<open>C8: the order of the field lines\<close>

text \<open>
  C8, as amended. Take a record-start line followed by a run of lines that each begin,
  stripped, with one of the four prefixes, every prefix at most once. If the line after
  the run is not a continuation line (the lines end there, or it is blank, begins with
  digits and a dot, or has one of the prefixes), or if the run has a \<^verbatim>\<open>Notes: \<close>
  line whose text is kept, then every permutation of the run gives the same parse: the
  same record, and the same records before and after it. What precedes the
  record-start line is arbitrary.
\<close>

theorem field_order_irrelevant:
  assumes "mset run' = mset run"
    and "\<forall>l\<in>set run. known_prefix (strip l)"
    and "distinct (map (\<lambda>l. which_prefix (strip l)) run)"
    and "run_closed run rest"
  shows "parse_lines stem (pre @ start # run' @ rest) = parse_lines stem (pre @ start # run @ rest)"
proof -
  let ?A = "pre @ [start]"
  let ?same = "\<lambda>a b. a = b \<or> (\<not> startswith a ''Query: '' \<and> \<not> startswith b ''Query: '')"
  from assms(1) have len_run: "length run' = length run" by (metis size_mset)
  from assms(1,2) have fields': "\<forall>l\<in>set run'. known_prefix (strip l)"
    by (metis set_mset_mset)
  have mid: "list_all2 ?same run' run"
    using len_run assms(2) fields'
    by (auto simp: list_all2_conv_all_nth field_line_no_query)
  have ends: "list_all2 ?same ?A ?A" "list_all2 ?same rest rest"
    by (simp_all add: list_all2_conv_all_nth)
  have "list_all2 ?same (?A @ run' @ rest) (?A @ run @ rest)"
    by (rule list_all2_appendI[OF ends(1) list_all2_appendI[OF mid ends(2)]])
  then have "list_all2 ?same (take 10 (?A @ run' @ rest)) (take 10 (?A @ run @ rest))"
    by (rule list_all2_takeI)
  then have q: "query_loop stem (take 10 (?A @ run' @ rest))
      = query_loop stem (take 10 (?A @ run @ rest))"
    by (rule query_loop_same)
  have s: "scan (?A @ run' @ rest) 0 [] = scan (?A @ run @ rest) 0 []"
    using assms by (rule scan_same_run)
  have "parse_lines stem (?A @ run' @ rest) = parse_lines stem (?A @ run @ rest)"
    unfolding parse_lines_def q s by simp
  then show ?thesis by simp
qed

theorem field_order_irrelevant_witness:
  "parse_lines ''gdp'' [''1. A - t'', ''Notes: n'', ''Frequency: f'', ''Units: u'', ''more'']
     = Inr \<lparr>query = ''gdp'', result_count = Some 1,
            results = [\<lparr>frequency = ''f'', units = ''u'', last_updated = [],
                         notes_field = ''n more'', series_id = ''A'', title = ''t''\<rparr>]\<rparr>"
proof -
  let ?run = "[''Units: u'', ''Frequency: f'', ''Notes: n'']"
  let ?run' = "[''Notes: n'', ''Frequency: f'', ''Units: u'']"
  have a: "mset ?run' = mset ?run" by (simp add: add_mset_commute)
  have "list_all (\<lambda>l. known_prefix (strip l)) ?run" by code_simp
  then have b: "\<forall>l\<in>set ?run. known_prefix (strip l)" by (simp only: list_all_iff)
  have c: "distinct (map (\<lambda>l. which_prefix (strip l)) ?run)" by code_simp
  have d: "run_closed ?run [''more'']" by code_simp
  have "parse_lines ''gdp'' ([] @ ''1. A - t'' # ?run @ [''more''])
     = Inr \<lparr>query = ''gdp'', result_count = Some 1,
            results = [\<lparr>frequency = ''f'', units = ''u'', last_updated = [],
                         notes_field = ''n more'', series_id = ''A'', title = ''t''\<rparr>]\<rparr>"
    by code_simp
  with field_order_irrelevant[OF a b c d, of "''gdp''" "[]" "''1. A - t''"]
  show ?thesis by simp
qed

text \<open>
  The claim as stated fails when a continuation line follows the run and the notes are
  still empty: the line is absorbed only if the last line of the run contains
  \<^verbatim>\<open>Notes:\<close>, and that depends on the order. The two orders of the same two field
  lines give the notes \<open>[]\<close> and \<^verbatim>\<open>stray\<close>.
\<close>

theorem field_order_counterexample:
  "parse_lines ''gdp'' [''1. A - t'', ''Notes: No description available'', ''Units: u'', ''stray'']
     = Inr \<lparr>query = ''gdp'', result_count = Some 1,
            results = [\<lparr>frequency = [], units = ''u'', last_updated = [],
                         notes_field = [], series_id = ''A'', title = ''t''\<rparr>]\<rparr>
   \<and> parse_lines ''gdp'' [''1. A - t'', ''Units: u'', ''Notes: No description available'', ''stray'']
     = Inr \<lparr>query = ''gdp'', result_count = Some 1,
            results = [\<lparr>frequency = [], units = ''u'', last_updated = [],
                         notes_field = ''stray'', series_id = ''A'', title = ''t''\<rparr>]\<rparr>"
  by code_simp

end
